theory Spec2Isabelle
  imports Main
begin

section \<open>Python strings\<close>

text \<open>
  A Python \<open>str\<close> is a sequence of Unicode code points; it is modelled as the list of
  their numbers, so that \<open>length\<close> is Python's \<open>len\<close>. \<open>str\<close> reads an ASCII literal.
\<close>

type_synonym pystr = "nat list"

definition str :: "string \<Rightarrow> pystr" where
  "str s = map of_char s"

text \<open>The code points for which \<open>str.isspace\<close> holds; \<open>str.split()\<close> and
  \<open>str.strip()\<close> use exactly this set.\<close>

definition isspace :: "nat \<Rightarrow> bool" where
  "isspace c = (c \<in> {9, 10, 11, 12, 13, 28, 29, 30, 31, 32, 133, 160, 5760,
                      8192, 8193, 8194, 8195, 8196, 8197, 8198, 8199, 8200, 8201, 8202,
                      8232, 8233, 8239, 8287, 12288})"

text \<open>The character class \<open>[.!?]\<close> of the sentence pattern.\<close>

definition is_terminal :: "nat \<Rightarrow> bool" where
  "is_terminal c = (c = 46 \<or> c = 33 \<or> c = 63)"

text \<open>\<open>sep.join(xs)\<close>.\<close>

fun str_join :: "pystr \<Rightarrow> pystr list \<Rightarrow> pystr" where
  "str_join sep [] = []"
| "str_join sep [x] = x"
| "str_join sep (x # y # ys) = x @ sep @ str_join sep (y # ys)"

text \<open>\<open>s.split()\<close>: the maximal runs of non-whitespace characters.\<close>

function str_split :: "pystr \<Rightarrow> pystr list" where
  "str_split [] = []"
| "str_split (c # cs) =
     (if isspace c then str_split cs
      else (c # takeWhile (\<lambda>d. \<not> isspace d) cs)
             # str_split (dropWhile (\<lambda>d. \<not> isspace d) cs))"
  by pat_completeness auto
termination
  by (relation "measure length") (auto simp: length_dropWhile_le less_Suc_eq_le)

text \<open>\<open>s.strip()\<close>.\<close>

definition str_strip :: "pystr \<Rightarrow> pystr" where
  "str_strip s = rev (dropWhile isspace (rev (dropWhile isspace s)))"

text \<open>
  \<open>re.split(r'(?<=[.!?]) +', text)\<close>. The scan keeps the piece read so far in \<open>cur\<close>.
  A match starts at a space (code point 32) whose predecessor is in \<open>[.!?]\<close>; the
  predecessor is the last character of \<open>cur\<close>, and there is none at the start of the text
  or right after a match. The match is greedy, so it takes every space that follows.
  The pattern has no group and matches no empty string, so the result is the list of
  the pieces between the matches, the last one included even when it is empty.
\<close>

function re_split :: "pystr \<Rightarrow> pystr \<Rightarrow> pystr list" where
  "re_split cur [] = [cur]"
| "re_split cur (c # cs) =
     (if c = 32 \<and> cur \<noteq> [] \<and> is_terminal (last cur)
      then cur # re_split [] (dropWhile (\<lambda>d. d = 32) cs)
      else re_split (cur @ [c]) cs)"
  by pat_completeness auto
termination
  by (relation "measure (\<lambda>(cur, text). length text)")
     (auto simp: length_dropWhile_le less_Suc_eq_le)

definition split_sentences :: "pystr \<Rightarrow> pystr list" where
  "split_sentences text = re_split [] text"

section \<open>The segmenter: \<open>chunk_text\<close>\<close>

text \<open>
  The body of the \<open>for s in sentences\<close> loop, on the loop state
  \<open>(chunks, cur, cur_len)\<close>. \<open>max_words\<close> is a Python \<open>int\<close>.
\<close>

fun chunk_loop :: "int \<Rightarrow> pystr list \<Rightarrow> pystr list \<times> pystr list \<times> int
                     \<Rightarrow> pystr list \<times> pystr list \<times> int" where
  "chunk_loop max_words [] st = st"
| "chunk_loop max_words (s # ss) (chunks, cur, cur_len) =
     (let s_len = int (length (str_split s)) in
      if cur_len + s_len > max_words \<and> cur \<noteq> []
      then chunk_loop max_words ss (chunks @ [str_join [32] cur], [s], s_len)
      else chunk_loop max_words ss (chunks, cur @ [s], cur_len + s_len))"

definition chunk_text :: "pystr \<Rightarrow> int \<Rightarrow> pystr list" where
  "chunk_text text max_words =
     (case chunk_loop max_words (split_sentences text) ([], [], 0) of
        (chunks, cur, cur_len) \<Rightarrow>
          if cur \<noteq> [] then chunks @ [str_join [32] cur] else chunks)"

text \<open>The number of words of a piece of text, \<open>len(s.split())\<close>.\<close>

definition word_count :: "pystr \<Rightarrow> int" where
  "word_count s = int (length (str_split s))"

section \<open>The summarization agent\<close>

text \<open>
  \<open>youtube_agent.run(prompt)\<close> is an external call. It returns a \<open>str\<close> or some other
  object, of which the code only takes \<open>str(out)\<close>, or it raises. The agent is a
  parameter: a function of the number of invocations made before this one and of the
  prompt, with \<open>None\<close> when the call raises.
\<close>

datatype run_output =
    PlainStr pystr      \<comment> \<open>\<open>isinstance(out, str)\<close>\<close>
  | RunResponse pystr   \<comment> \<open>any other object, with the value of \<open>str(out)\<close>\<close>

type_synonym agent = "nat \<Rightarrow> pystr \<Rightarrow> run_output option"

datatype error =
    ModelInvocationFailure  \<comment> \<open>the exception that \<open>youtube_agent.run\<close> raised\<close>
  | ValueError              \<comment> \<open>\<open>range()\<close> with step zero\<close>
  | EmptyContent            \<comment> \<open>\<open>if not transcript: st.error(...); st.stop()\<close>\<close>

text \<open>
  What a run of the pipeline does besides computing its result: \<open>calls\<close> counts the
  invocations of \<open>youtube_agent.run\<close>, \<open>sleeps\<close> the calls of \<open>time.sleep\<close>, and
  \<open>passes\<close> logs \<open>len(summaries)\<close> at each test of the \<open>while\<close> condition.
\<close>

record trace =
  calls :: nat
  sleeps :: nat
  passes :: "nat list"

definition init_trace :: trace where
  "init_trace = \<lparr>calls = 0, sleeps = 0, passes = []\<rparr>"

text \<open>\<open>out.strip() if isinstance(out, str) else str(out)\<close>\<close>

fun as_text :: "run_output \<Rightarrow> pystr" where
  "as_text (PlainStr s) = str_strip s"
| "as_text (RunResponse r) = r"

text \<open>One invocation with what follows it: the result is captured as text and the
  pipeline sleeps. An exception leaves the function at the call.\<close>

definition invoke :: "agent \<Rightarrow> pystr \<Rightarrow> trace \<Rightarrow> (error + pystr) \<times> trace" where
  "invoke agent prompt tr =
     (case agent (calls tr) prompt of
        None \<Rightarrow> (Inl ModelInvocationFailure, tr\<lparr>calls := Suc (calls tr)\<rparr>)
      | Some out \<Rightarrow>
          (Inr (as_text out), tr\<lparr>calls := Suc (calls tr), sleeps := Suc (sleeps tr)\<rparr>))"

definition leaf_prompt :: "pystr \<Rightarrow> pystr" where
  "leaf_prompt chunk =
     str ''From the following transcript chunk, write a detailed chronological description ''
     @ str ''covering all events, actions, and statements exactly as they appear, without skipping any details:''
     @ [10, 10] @ chunk"

definition batch_prompt :: "pystr list \<Rightarrow> pystr" where
  "batch_prompt batch =
     str ''Combine the following detailed summaries into one chronological description, ''
     @ str ''preserving all events and facts without removing any important points:''
     @ [10, 10] @ str_join [10, 10] batch"

section \<open>\<open>summarize_using_agent\<close>\<close>

text \<open>Step 1, \<open>for i, chunk in enumerate(chunks, start=1)\<close>.\<close>

fun summarize_chunks :: "agent \<Rightarrow> pystr list \<Rightarrow> pystr list \<Rightarrow> trace
                           \<Rightarrow> (error + pystr list) \<times> trace" where
  "summarize_chunks agent [] summaries tr = (Inr summaries, tr)"
| "summarize_chunks agent (chunk # chunks) summaries tr =
     (case invoke agent (leaf_prompt chunk) tr of
        (Inl e, tr') \<Rightarrow> (Inl e, tr')
      | (Inr out, tr') \<Rightarrow> summarize_chunks agent chunks (summaries @ [out]) tr')"

text \<open>\<open>range(start, stop, step)\<close> as the list of its elements.\<close>

definition py_range :: "int \<Rightarrow> int \<Rightarrow> int \<Rightarrow> error + int list" where
  "py_range start stop step =
     (if step = 0 then Inl ValueError
      else if step > 0
      then Inr (map (\<lambda>k. start + int k * step) [0 ..< nat ((stop - start + step - 1) div step)])
      else Inr (map (\<lambda>k. start + int k * step) [0 ..< nat ((start - stop - step - 1) div (- step))]))"

text \<open>\<open>xs[lo:hi]\<close>: a negative bound counts from the end, and both are clipped.\<close>

definition py_slice :: "'a list \<Rightarrow> int \<Rightarrow> int \<Rightarrow> 'a list" where
  "py_slice xs lo hi =
     (let n = int (length xs);
          l = (if lo < 0 then max (lo + n) 0 else min lo n);
          h = (if hi < 0 then max (hi + n) 0 else min hi n)
      in take (nat (h - l)) (drop (nat l) xs))"

text \<open>The \<open>for i in range(0, len(summaries), batch_size)\<close> loop of one pass, over the
  indices that remain.\<close>

fun merge_batches :: "agent \<Rightarrow> int \<Rightarrow> pystr list \<Rightarrow> int list \<Rightarrow> pystr list \<Rightarrow> trace
                        \<Rightarrow> (error + pystr list) \<times> trace" where
  "merge_batches agent batch_size summaries [] merged_summaries tr = (Inr merged_summaries, tr)"
| "merge_batches agent batch_size summaries (i # idx) merged_summaries tr =
     (let batch = py_slice summaries i (i + batch_size) in
      case invoke agent (batch_prompt batch) tr of
        (Inl e, tr') \<Rightarrow> (Inl e, tr')
      | (Inr combined, tr') \<Rightarrow>
          merge_batches agent batch_size summaries idx (merged_summaries @ [combined]) tr')"

text \<open>One pass: the body of the \<open>while\<close> loop.\<close>

definition merge_pass :: "agent \<Rightarrow> int \<Rightarrow> pystr list \<Rightarrow> trace \<Rightarrow> (error + pystr list) \<times> trace" where
  "merge_pass agent batch_size summaries tr =
     (case py_range 0 (int (length summaries)) batch_size of
        Inl e \<Rightarrow> (Inl e, tr)
      | Inr idx \<Rightarrow> merge_batches agent batch_size summaries idx [] tr)"

text \<open>Step 2, \<open>while len(summaries) > 1\<close>. The loop need not end, so \<open>None\<close> is the
  run that never leaves it.\<close>

partial_function (option) merge_passes ::
    "agent \<Rightarrow> int \<Rightarrow> pystr list \<Rightarrow> trace \<Rightarrow> ((error + pystr list) \<times> trace) option" where
  "merge_passes agent batch_size summaries tr =
     (let tr1 = tr\<lparr>passes := passes tr @ [length summaries]\<rparr> in
      if length summaries > 1
      then (case merge_pass agent batch_size summaries tr1 of
              (Inl e, tr') \<Rightarrow> Some (Inl e, tr')
            | (Inr merged_summaries, tr') \<Rightarrow> merge_passes agent batch_size merged_summaries tr')
      else Some (Inr summaries, tr1))"

text \<open>The reducer: step 2 and \<open>return summaries[0] if summaries else ""\<close>.\<close>

definition reduce_summaries ::
    "agent \<Rightarrow> int \<Rightarrow> pystr list \<Rightarrow> trace \<Rightarrow> ((error + pystr) \<times> trace) option" where
  "reduce_summaries agent batch_size summaries tr =
     (case merge_passes agent batch_size summaries tr of
        None \<Rightarrow> None
      | Some (Inl e, tr') \<Rightarrow> Some (Inl e, tr')
      | Some (Inr final, tr') \<Rightarrow> Some (Inr (case final of [] \<Rightarrow> [] | s # _ \<Rightarrow> s), tr'))"

text \<open>The function with its local constant \<open>batch_size\<close> as a parameter, and the
  function as the source has it, with \<open>batch_size = 1\<close>.\<close>

definition summarize_with :: "int \<Rightarrow> agent \<Rightarrow> pystr list \<Rightarrow> ((error + pystr) \<times> trace) option" where
  "summarize_with batch_size agent chunks =
     (case summarize_chunks agent chunks [] init_trace of
        (Inl e, tr) \<Rightarrow> Some (Inl e, tr)
      | (Inr summaries, tr) \<Rightarrow> reduce_summaries agent batch_size summaries tr)"

definition summarize_using_agent :: "agent \<Rightarrow> pystr list \<Rightarrow> ((error + pystr) \<times> trace) option" where
  "summarize_using_agent agent chunks = summarize_with 1 agent chunks"

section \<open>The pipeline\<close>

text \<open>
  The part of the button handler that runs the pipeline: the transcript (\<open>None\<close> when
  there is none) is tested with \<open>if not transcript\<close>, chunked and summarized. The two
  constants of the source, \<open>max_words=150\<close> at the call of \<open>chunk_text\<close> and
  \<open>batch_size = 1\<close>, are parameters of \<open>pipeline\<close>; \<open>run\<close> is the source.
\<close>

definition pipeline ::
    "agent \<Rightarrow> int \<Rightarrow> int \<Rightarrow> pystr option \<Rightarrow> ((error + pystr) \<times> trace) option" where
  "pipeline agent max_words batch_size transcript =
     (case transcript of
        None \<Rightarrow> Some (Inl EmptyContent, init_trace)
      | Some t \<Rightarrow>
          if t = [] then Some (Inl EmptyContent, init_trace)
          else summarize_with batch_size agent (chunk_text t max_words))"

definition run :: "agent \<Rightarrow> pystr option \<Rightarrow> ((error + pystr) \<times> trace) option" where
  "run agent transcript = pipeline agent 150 1 transcript"

section \<open>Predicates used in the proofs\<close>

text \<open>A group of sentences that the segmenter may close as one chunk: it is not empty,
  and its words fit \<open>max_words\<close> unless it is a single sentence.\<close>

definition group_ok :: "int \<Rightarrow> pystr list \<Rightarrow> bool" where
  "group_ok m g = (g \<noteq> [] \<and> (sum_list (map word_count g) \<le> m \<or> length g = 1))"

text \<open>\<open>nomatch s\<close>: the sentence pattern matches nowhere in \<open>s\<close>, that is, no character
  of \<open>[.!?]\<close> is followed by a space. \<open>pieces_ok\<close>: what \<open>re.split\<close> returns. No piece
  contains a match, every piece but the last ends in \<open>[.!?]\<close>, and no piece after the
  first starts with a space.\<close>

fun nomatch :: "pystr \<Rightarrow> bool" where
  "nomatch [] = True"
| "nomatch [x] = True"
| "nomatch (x # y # zs) = (\<not> (is_terminal x \<and> y = 32) \<and> nomatch (y # zs))"

fun pieces_ok :: "pystr list \<Rightarrow> bool" where
  "pieces_ok [] = True"
| "pieces_ok [x] = nomatch x"
| "pieces_ok (x # y # ys) =
     (nomatch x \<and> x \<noteq> [] \<and> is_terminal (last x) \<and> (y = [] \<or> hd y \<noteq> 32) \<and> pieces_ok (y # ys))"


section \<open>Properties of the string functions\<close>

lemma isspace_not_terminal: "isspace c \<Longrightarrow> \<not> is_terminal c"
  by (auto simp: isspace_def is_terminal_def)

lemma re_split_no_terminal:
  "\<forall>c \<in> set cur \<union> set t. \<not> is_terminal c \<Longrightarrow> re_split cur t = [cur @ t]"
proof (induction t arbitrary: cur)
  case Nil
  then show ?case by simp
next
  case (Cons c cs)
  have "cur \<noteq> [] \<Longrightarrow> \<not> is_terminal (last cur)"
    using Cons.prems by simp
  moreover have "re_split (cur @ [c]) cs = [(cur @ [c]) @ cs]"
    using Cons.prems by (intro Cons.IH) auto
  ultimately show ?case by auto
qed

lemma str_split_whitespace: "\<forall>c \<in> set s. isspace c \<Longrightarrow> str_split s = []"
  by (induction s) auto

lemma split_sentences_whitespace:
  "\<forall>c \<in> set t. isspace c \<Longrightarrow> split_sentences t = [t]"
  unfolding split_sentences_def
  using re_split_no_terminal [of "[]" t] by (auto dest: isspace_not_terminal)

lemma takeWhile_append_stop: "\<not> P x \<Longrightarrow> takeWhile P (xs @ x # ys) = takeWhile P xs"
  by (induction xs) auto

lemma dropWhile_append_stop: "\<not> P x \<Longrightarrow> dropWhile P (xs @ x # ys) = dropWhile P xs @ x # ys"
  by (induction xs) auto

lemma str_split_append_space: "str_split (a @ 32 # b) = str_split a @ str_split b"
proof (induction a rule: str_split.induct)
  case 1
  show ?case by (simp add: isspace_def)
next
  case (2 c cs)
  have sp: "\<not> \<not> isspace 32" by (simp add: isspace_def)
  note tw = takeWhile_append_stop [of "\<lambda>d. \<not> isspace d" 32, OF sp]
  note dw = dropWhile_append_stop [of "\<lambda>d. \<not> isspace d" 32, OF sp]
  show ?case
  proof (cases "isspace c")
    case True
    with 2 show ?thesis by simp
  next
    case False
    with 2 show ?thesis
      by (simp add: tw dw)
  qed
qed

lemma word_count_join:
  "word_count (str_join [32] g) = sum_list (map word_count g)"
  by (induction "[32::nat]" g rule: str_join.induct)
     (simp_all add: word_count_def str_split_append_space)

lemma chunk_loop_inv:
  assumes "chunk_loop m ss (map (str_join [32]) gs, cur, n) = (chunks', cur', n')"
    and "n = sum_list (map word_count cur)"
    and "\<forall>g \<in> set gs. group_ok m g"
    and "cur \<noteq> [] \<longrightarrow> n \<le> m \<or> length cur = 1"
  shows "\<exists>gs'. chunks' = map (str_join [32]) gs' \<and> concat gs' @ cur' = concat gs @ cur @ ss
           \<and> (\<forall>g \<in> set gs'. group_ok m g) \<and> n' = sum_list (map word_count cur')
           \<and> (cur' \<noteq> [] \<longrightarrow> n' \<le> m \<or> length cur' = 1)"
  using assms
proof (induction ss arbitrary: gs cur n)
  case Nil
  then show ?case by auto
next
  case (Cons s ss)
  let ?k = "int (length (str_split s))"
  have k: "?k = word_count s" by (simp add: word_count_def)
  show ?case
  proof (cases "n + ?k > m \<and> cur \<noteq> []")
    case True
    then have step: "chunk_loop m ss (map (str_join [32]) (gs @ [cur]), [s], ?k) = (chunks', cur', n')"
      using Cons.prems(1) by simp
    have ok: "\<forall>g \<in> set (gs @ [cur]). group_ok m g"
      using Cons.prems True by (auto simp: group_ok_def)
    from Cons.IH [OF step _ ok] show ?thesis
      by (auto simp: k)
  next
    case False
    then have step: "chunk_loop m ss (map (str_join [32]) gs, cur @ [s], n + ?k) = (chunks', cur', n')"
      using Cons.prems(1) by auto
    have "n + ?k = sum_list (map word_count (cur @ [s]))"
      using Cons.prems(2) by (simp add: k)
    moreover have "cur @ [s] \<noteq> [] \<longrightarrow> n + ?k \<le> m \<or> length (cur @ [s]) = 1"
      using False by auto
    ultimately show ?thesis
      using Cons.IH [OF step _ Cons.prems(3)] by auto
  qed
qed

lemma chunk_text_groups:
  "\<exists>gs. chunk_text t m = map (str_join [32]) gs \<and> concat gs = split_sentences t
        \<and> (\<forall>g \<in> set gs. group_ok m g)"
proof -
  obtain chunks' cur' n' where
    run: "chunk_loop m (split_sentences t) (map (str_join [32]) [], [], 0) = (chunks', cur', n')"
    by (metis prod_cases3)
  from chunk_loop_inv [OF run] obtain gs' where
    gs': "chunks' = map (str_join [32]) gs'" "concat gs' @ cur' = split_sentences t"
      "\<forall>g \<in> set gs'. group_ok m g" "n' = sum_list (map word_count cur')"
      "cur' \<noteq> [] \<longrightarrow> n' \<le> m \<or> length cur' = 1"
    by auto
  show ?thesis
  proof (cases "cur' = []")
    case True
    with run gs' show ?thesis
      by (intro exI [of _ gs']) (simp add: chunk_text_def)
  next
    case False
    with run gs' show ?thesis
      by (intro exI [of _ "gs' @ [cur']"]) (auto simp: chunk_text_def group_ok_def)
  qed
qed

lemma nomatch_snoc:
  "nomatch (cur @ [c]) = (nomatch cur \<and> \<not> (c = 32 \<and> cur \<noteq> [] \<and> is_terminal (last cur)))"
  by (induction cur rule: nomatch.induct) auto

lemma nomatch_append: "nomatch (a @ b) \<Longrightarrow> nomatch a"
  by (induction a rule: nomatch.induct) auto

lemma re_split_nomatch: "nomatch (cur @ t) \<Longrightarrow> re_split cur t = [cur @ t]"
proof (induction t arbitrary: cur)
  case Nil
  then show ?case by simp
next
  case (Cons c cs)
  have "nomatch ((cur @ [c]) @ cs)" using Cons.prems by simp
  then have "nomatch (cur @ [c])" by (rule nomatch_append)
  then have "\<not> (c = 32 \<and> cur \<noteq> [] \<and> is_terminal (last cur))"
    by (simp add: nomatch_snoc)
  moreover have "re_split (cur @ [c]) cs = [(cur @ [c]) @ cs]"
    using Cons.prems by (intro Cons.IH) simp
  ultimately show ?case by auto
qed

lemma re_split_at_separator:
  "nomatch (cur @ s) \<Longrightarrow> cur @ s \<noteq> [] \<Longrightarrow> is_terminal (last (cur @ s)) \<Longrightarrow> r = [] \<or> hd r \<noteq> 32
   \<Longrightarrow> re_split cur (s @ 32 # r) = (cur @ s) # re_split [] r"
proof (induction s arbitrary: cur)
  case Nil
  have "dropWhile (\<lambda>d. d = 32) r = r"
    using Nil.prems(4) by (cases r) auto
  with Nil show ?case by simp
next
  case (Cons c cs)
  have "nomatch ((cur @ [c]) @ cs)" using Cons.prems by simp
  then have "nomatch (cur @ [c])" by (rule nomatch_append)
  then have "\<not> (c = 32 \<and> cur \<noteq> [] \<and> is_terminal (last cur))"
    by (simp add: nomatch_snoc)
  moreover have "re_split (cur @ [c]) (cs @ 32 # r) = ((cur @ [c]) @ cs) # re_split [] r"
    using Cons.prems by (intro Cons.IH) auto
  ultimately show ?case by auto
qed

lemma re_split_join: "g \<noteq> [] \<Longrightarrow> pieces_ok g \<Longrightarrow> re_split [] (str_join [32] g) = g"
proof (induction g rule: pieces_ok.induct)
  case 1
  then show ?case by simp
next
  case (2 x)
  then show ?case using re_split_nomatch [of "[]" x] by simp
next
  case (3 x y ys)
  have r: "str_join [32] (y # ys) = [] \<or> hd (str_join [32] (y # ys)) \<noteq> 32"
    using "3.prems" by (cases ys) auto
  have "re_split [] (x @ 32 # str_join [32] (y # ys)) = ([] @ x) # re_split [] (str_join [32] (y # ys))"
    using "3.prems" r by (intro re_split_at_separator) auto
  with 3 show ?case by simp
qed

lemma re_split_first: "\<exists>p ps. re_split cur t = (cur @ p) # ps"
proof (induction cur t rule: re_split.induct)
  case (1 cur)
  show ?case by simp
next
  case (2 cur c cs)
  show ?case
  proof (cases "c = 32 \<and> cur \<noteq> [] \<and> is_terminal (last cur)")
    case True
    then show ?thesis by simp
  next
    case False
    with 2 obtain p ps where "re_split (cur @ [c]) cs = ((cur @ [c]) @ p) # ps" by blast
    with False show ?thesis by auto
  qed
qed

lemma re_split_first_no_space:
  assumes "t = [] \<or> hd t \<noteq> 32"
  shows "\<exists>y ys. re_split [] t = y # ys \<and> (y = [] \<or> hd y \<noteq> 32)"
proof (cases t)
  case Nil
  then show ?thesis by simp
next
  case (Cons d ds)
  obtain p ps where "re_split ([] @ [d]) ds = (([] @ [d]) @ p) # ps"
    using re_split_first by blast
  with Cons assms show ?thesis by simp
qed

lemma dropWhile_space_head: "dropWhile (\<lambda>d. d = (32::nat)) cs = [] \<or> hd (dropWhile (\<lambda>d. d = 32) cs) \<noteq> 32"
  using hd_dropWhile [of "\<lambda>d. d = (32::nat)" cs] by blast

lemma pieces_ok_re_split: "nomatch cur \<Longrightarrow> pieces_ok (re_split cur t)"
proof (induction cur t rule: re_split.induct)
  case (1 cur)
  then show ?case by simp
next
  case (2 cur c cs)
  show ?case
  proof (cases "c = 32 \<and> cur \<noteq> [] \<and> is_terminal (last cur)")
    case True
    obtain y ys where y: "re_split [] (dropWhile (\<lambda>d. d = 32) cs) = y # ys" "y = [] \<or> hd y \<noteq> 32"
      using re_split_first_no_space [OF dropWhile_space_head] by blast
    have "pieces_ok (re_split [] (dropWhile (\<lambda>d. d = 32) cs))"
      using "2.IH"(1) True by simp
    with True y "2.prems" show ?thesis by simp
  next
    case False
    then have "nomatch (cur @ [c])" using "2.prems" by (simp add: nomatch_snoc)
    with False "2.IH"(2) show ?thesis by auto
  qed
qed

lemma pieces_ok_append: "pieces_ok (a @ b) \<Longrightarrow> pieces_ok a \<and> pieces_ok b"
proof (induction a rule: pieces_ok.induct)
  case 1
  then show ?case by simp
next
  case (2 x)
  then show ?case by (cases b) auto
next
  case (3 x y ys)
  then show ?case by auto
qed

lemma pieces_ok_concat: "pieces_ok (concat gs) \<Longrightarrow> g \<in> set gs \<Longrightarrow> pieces_ok g"
  by (induction gs) (auto dest: pieces_ok_append)


section \<open>The segmenter on empty and blank text\<close>

text \<open>
  C3, as the spec states it: for an empty or whitespace-only text the segmenter returns
  no chunk. The code returns one chunk: \<open>re.split\<close> returns the whole text as its only
  piece, also when the text is empty, the loop puts that piece into \<open>cur\<close>, and
  \<open>if cur:\<close> tests the list, which has one element. So \<open>chunk_text("")\<close> is \<open>[""]\<close>.
\<close>

theorem chunk_text_empty_counterexample:
  "chunk_text [] 150 = [[]] \<and> length (chunk_text [] 150) = 1
   \<and> length (chunk_text (str ''   '') 150) = 1"
  by (simp add: chunk_text_def split_sentences_def str_def is_terminal_def isspace_def)

text \<open>
  C3, amended: for every text that is empty or consists only of whitespace, and every
  \<open>max_words\<close>, the segmenter returns exactly one chunk, the text itself (a chunk of
  zero words).
\<close>

theorem chunk_text_whitespace:
  "\<forall>c \<in> set t. isspace c \<Longrightarrow> chunk_text t max_words = [t]"
  by (simp add: chunk_text_def split_sentences_whitespace str_split_whitespace)

theorem chunk_text_whitespace_witness:
  "list_all isspace (str ''  '') \<and> chunk_text (str ''  '') 150 = [str ''  '']"
  using chunk_text_whitespace [of "str ''  ''" 150] by (simp add: str_def isspace_def)

section \<open>The segmenter keeps the sentences and bounds the chunks\<close>

lemmas eval_str = str_def is_terminal_def isspace_def split_sentences_def chunk_text_def word_count_def

text \<open>
  C4. Every chunk is a whole group of consecutive sentences joined by single spaces, and
  the groups in their order make up the sentence sequence of the transcript. On the
  chunks themselves: splitting each chunk into its sentences and concatenating the
  results in the order of the chunks gives the sentences of the transcript, so none is
  lost, duplicated or moved. This holds for every \<open>max_words\<close>, positive or not.
\<close>

theorem chunk_text_sentences:
  "concat (map split_sentences (chunk_text t m)) = split_sentences t
   \<and> (\<exists>gs. chunk_text t m = map (str_join [32]) gs \<and> concat gs = split_sentences t \<and> [] \<notin> set gs)"
proof -
  obtain gs where gs: "chunk_text t m = map (str_join [32]) gs" "concat gs = split_sentences t"
    "\<forall>g \<in> set gs. group_ok m g"
    using chunk_text_groups by blast
  have "pieces_ok (concat gs)"
    using gs(2) pieces_ok_re_split [of "[]" t] by (simp add: split_sentences_def)
  then have "\<forall>g \<in> set gs. split_sentences (str_join [32] g) = g"
    using gs(3) by (auto simp: split_sentences_def group_ok_def intro!: re_split_join dest: pieces_ok_concat)
  then have "map split_sentences (map (str_join [32]) gs) = gs"
    by (simp add: map_idI)
  moreover have "[] \<notin> set gs"
    using gs(3) by (auto simp: group_ok_def)
  ultimately show ?thesis using gs by auto
qed

text \<open>Scenario A of the spec: \<open>"A. B. C."\<close> with \<open>max_words = 1\<close>.\<close>

lemma chunk_text_scenario_A:
  "chunk_text (str ''A. B. C.'') 1 = [str ''A.'', str ''B.'', str ''C.'']"
  by (simp add: eval_str)

text \<open>
  C5. The chunks are the joins of groups of whole sentences, so no sentence is split
  across chunks, and every chunk has at most \<open>max_words\<close> words unless it consists of a
  single sentence that has more than \<open>max_words\<close> words itself. This holds for every
  \<open>max_words\<close>, in particular for the positive ones.
\<close>

theorem chunk_text_word_bound:
  "\<exists>gs. chunk_text t m = map (str_join [32]) gs \<and> concat gs = split_sentences t
     \<and> (\<forall>g \<in> set gs. word_count (str_join [32] g) \<le> m \<or> (\<exists>s. g = [s] \<and> m < word_count s))"
proof -
  obtain gs where gs: "chunk_text t m = map (str_join [32]) gs" "concat gs = split_sentences t"
    "\<forall>g \<in> set gs. group_ok m g"
    using chunk_text_groups by blast
  have "word_count (str_join [32] g) \<le> m \<or> (\<exists>s. g = [s] \<and> m < word_count s)"
    if "g \<in> set gs" for g
  proof (cases "sum_list (map word_count g) \<le> m")
    case True
    then show ?thesis by (simp add: word_count_join)
  next
    case False
    with gs(3) that have "length g = 1" by (auto simp: group_ok_def)
    then obtain s where "g = [s]" by (cases g) auto
    with False show ?thesis by auto
  qed
  with gs show ?thesis by blast
qed

text \<open>An instance with a sentence that is too long and a chunk of two sentences.\<close>

theorem chunk_text_word_bound_witness:
  "chunk_text (str ''A B C. D. E.'') 2 = [str ''A B C.'', str ''D. E.'']
   \<and> split_sentences (str ''A B C. D. E.'') = [str ''A B C.'', str ''D.'', str ''E.'']
   \<and> word_count (str ''A B C.'') = 3 \<and> word_count (str ''D. E.'') = 2
   \<and> (\<exists>gs. chunk_text (str ''A B C. D. E.'') 2 = map (str_join [32]) gs
          \<and> concat gs = split_sentences (str ''A B C. D. E.'')
          \<and> list_all (\<lambda>g. word_count (str_join [32] g) \<le> 2 \<or> (\<exists>s. g = [s] \<and> 2 < word_count s)) gs)"
proof -
  have "chunk_text (str ''A B C. D. E.'') 2 = [str ''A B C.'', str ''D. E.'']"
    by (simp add: eval_str)
  moreover have "split_sentences (str ''A B C. D. E.'') = [str ''A B C.'', str ''D.'', str ''E.'']"
    by (simp add: eval_str)
  moreover have "word_count (str ''A B C.'') = 3" "word_count (str ''D. E.'') = 2"
    by (simp_all add: eval_str)
  ultimately show ?thesis
    using chunk_text_word_bound [of "str ''A B C. D. E.''" 2]
    by (simp only: list_all_iff)
qed

end
